theory Spec2Isabelle
  imports Main "HOL-Library.AList"
begin

section \<open>Values, configuration and the external collaborators\<close>

text \<open>
  The coordinator of \<^verbatim>\<open>src/server.ts\<close> is a single-threaded JavaScript program:
  every function body and every callback runs to its next suspension point without
  interleaving. The model is a state record holding the module-level variables
  (\<^verbatim>\<open>ring\<close>, \<^verbatim>\<open>connections\<close>, \<^verbatim>\<open>removed\<close>, \<^verbatim>\<open>sampledValues\<close>), the objects created so
  far, the primary store and the output written, and one state transformer per function
  or callback of the source.
\<close>

datatype jval =
    JUndef
  | JStr string
  | JDate nat
  | JList "jval list"
  | JObj "(string \<times> jval) list"

record ConfigEntry =
  host :: string
  port :: nat
  https :: bool

text \<open>
  The plain data the bootstrap code hands to the core: \<^verbatim>\<open>config.server\<close> (a TOML table,
  keys in file order), \<^verbatim>\<open>config.shared.dbname\<close>, \<^verbatim>\<open>argv.name\<close>, and the hash function
  of the ring, whose bucket arithmetic is a black box.
\<close>

record env =
  config_server :: "(string \<times> ConfigEntry) list"
  dbname :: string
  serverName :: string
  hash :: "string \<Rightarrow> nat"

text \<open>
  Modelled from the spec: the Hash Ring capability (class \<^verbatim>\<open>HashRing\<close> of the external
  package \<^verbatim>\<open>ketama\<close>, which is not part of the repository). It operates purely over the
  identifiers currently known to it: \<^verbatim>\<open>addNode\<close> and \<^verbatim>\<open>removeNode\<close> maintain a set of
  identifiers, \<^verbatim>\<open>getNode\<close> returns \<^verbatim>\<open>undefined\<close> on the empty ring and otherwise one
  member, chosen as a function of the membership and the key.
\<close>

type_synonym 'n HashRing = "'n list"

definition addNode :: "'n \<Rightarrow> 'n HashRing \<Rightarrow> 'n HashRing" where
  "addNode k r = (if k \<in> set r then r else r @ [k])"

definition removeNode :: "'n \<Rightarrow> 'n HashRing \<Rightarrow> 'n HashRing" where
  "removeNode k r = removeAll k r"

definition getNode :: "(string \<Rightarrow> nat) \<Rightarrow> 'n HashRing \<Rightarrow> string \<Rightarrow> 'n option" where
  "getNode h r key = (if r = [] then None else Some (r ! (h key mod length r)))"

text \<open>
  A JavaScript \<^verbatim>\<open>Set\<close> object. Its members live in an internal slot, in insertion order;
  they are not properties of the object. \<^verbatim>\<open>add\<close> and \<^verbatim>\<open>delete\<close> change the members only.
  A \<^verbatim>\<open>for (k in obj)\<close> loop visits the enumerable property names of \<^verbatim>\<open>obj\<close>, a
  \<^verbatim>\<open>for (k of obj)\<close> loop visits the members.
\<close>

record js_set =
  members :: "string list"
  props :: "string list"

definition new_Set :: js_set where
  "new_Set = \<lparr>members = [], props = []\<rparr>"

definition Set_add :: "string \<Rightarrow> js_set \<Rightarrow> js_set" where
  "Set_add k s = (if k \<in> set (members s) then s else s\<lparr>members := members s @ [k]\<rparr>)"

definition Set_delete :: "string \<Rightarrow> js_set \<Rightarrow> js_set" where
  "Set_delete k s = s\<lparr>members := removeAll k (members s)\<rparr>"

definition for_in :: "js_set \<Rightarrow> string list" where
  "for_in s = props s"

definition for_of :: "js_set \<Rightarrow> string list" where
  "for_of s = members s"

text \<open>
  An \<^verbatim>\<open>AceBaseClient\<close> object as the coordinator sees it: the arguments it was constructed
  with, the \<^verbatim>\<open>key\<close> its two callbacks close over, and the progress of its connection
  (\<^verbatim>\<open>Pending\<close> until \<^verbatim>\<open>ready()\<close> settles). A handle is the index of the object in the list
  of objects created so far.
\<close>

datatype cstatus = Pending | Connected | Rejected | Disconnected

record AceBaseClient =
  c_dbname :: string
  c_conf :: "ConfigEntry option"
  c_key :: string
  c_status :: cstatus

record Payload =
  msg :: string
  ts :: nat

record Sample =
  path :: string
  inner :: Payload

datatype out_entry =
    ConsoleLog string
  | ConsoleError string
  | Report "(string \<times> jval) list"

record state =
  ring :: "string HashRing"
  connections :: "(string \<times> nat) list"
  removed :: js_set
  clients :: "AceBaseClient list"
  sampledValues :: "Sample list"
  primary :: jval
  out :: "out_entry list"
  calls :: "string list"

text \<open>
  \<^verbatim>\<open>calls\<close> is a history variable: the arguments of the calls of \<^verbatim>\<open>connectTo\<close> made so
  far. The program does not read it.
\<close>

definition init_state :: state where
  "init_state = \<lparr>ring = [], connections = [], removed = new_Set, clients = [],
     sampledValues = [], primary = JUndef, out = [], calls = []\<rparr>"

definition quoted :: "string \<Rightarrow> string" where
  "quoted s = CHR 0x27 # s @ [CHR 0x27]"

definition console_log :: "string \<Rightarrow> state \<Rightarrow> state" where
  "console_log m st = st\<lparr>out := out st @ [ConsoleLog m]\<rparr>"

text \<open>
  \<^verbatim>\<open>logMsg(msg, extra)\<close> appends \<^verbatim>\<open>JSON.stringify({ msg, ...extra })\<close> to the report file.
  \<^verbatim>\<open>JSON.stringify\<close> leaves out a property whose value is \<^verbatim>\<open>undefined\<close>.
\<close>

definition stringify_fields :: "(string \<times> jval) list \<Rightarrow> (string \<times> jval) list" where
  "stringify_fields fs = filter (\<lambda>f. snd f \<noteq> JUndef) fs"

definition logMsg :: "string \<Rightarrow> (string \<times> jval) list \<Rightarrow> state \<Rightarrow> state" where
  "logMsg m extra st =
     st\<lparr>out := out st @ [Report (stringify_fields ((''msg'', JStr m) # extra))]\<rparr>"

section \<open>Connection registry: \<^verbatim>\<open>connectTo\<close> and its callbacks\<close>

text \<open>
  \<^verbatim>\<open>connectTo\<close> contains no \<^verbatim>\<open>await\<close>: its whole body runs at the call. The two callbacks
  it registers run later, as events (\<open>on_disconnect\<close>, \<open>on_ready\<close>, \<open>on_ready_failed\<close>).
\<close>

definition connectTo :: "env \<Rightarrow> string \<Rightarrow> state \<Rightarrow> nat \<times> state" where
  "connectTo e key st0 =
     (let st = st0\<lparr>calls := calls st0 @ [key]\<rparr> in
      case map_of (connections st) key of
        Some c \<Rightarrow> (c, st)
      | None \<Rightarrow>
          (let conf = map_of (config_server e) key;
               client = \<lparr>c_dbname = dbname e, c_conf = conf, c_key = key, c_status = Pending\<rparr>
           in (length (clients st), st\<lparr>clients := clients st @ [client]\<rparr>)))"

definition set_status :: "nat \<Rightarrow> cstatus \<Rightarrow> state \<Rightarrow> state" where
  "set_status c s st = st\<lparr>clients := (clients st)[c := (clients st ! c)\<lparr>c_status := s\<rparr>]\<rparr>"

definition on_disconnect :: "nat \<Rightarrow> state \<Rightarrow> state" where
  "on_disconnect c st0 =
     (let key = c_key (clients st0 ! c);
          st = console_log (''server '' @ quoted key @ '' connection lost; removing from ring'') st0
      in st\<lparr>ring := removeNode key (ring st),
            connections := AList.delete key (connections st),
            removed := Set_add key (removed st)\<rparr>)"

definition on_ready :: "nat \<Rightarrow> state \<Rightarrow> state" where
  "on_ready c st0 =
     (let key = c_key (clients st0 ! c);
          st = console_log (''connected to server '' @ quoted key) st0
      in st\<lparr>ring := addNode key (ring st),
            connections := AList.update key c (connections st)\<rparr>)"

definition on_ready_failed :: "nat \<Rightarrow> state \<Rightarrow> state" where
  "on_ready_failed c st =
     console_log (''failed to connect to server '' @ quoted (c_key (clients st ! c))) st"

section \<open>\<^verbatim>\<open>buildRing\<close>, \<^verbatim>\<open>checkRemoved\<close>, \<^verbatim>\<open>replicaFor\<close>\<close>

definition buildRing :: "env \<Rightarrow> state \<Rightarrow> state" where
  "buildRing e st =
     fold (\<lambda>key s. if key = serverName e then s else snd (connectTo e (serverName e) s))
          (map fst (config_server e)) st"

text \<open>
  \<^verbatim>\<open>checkRemoved\<close>: for each key the loop visits it calls \<^verbatim>\<open>connectTo(key)\<close>, which returns
  a promise that is already fulfilled with the client. The \<^verbatim>\<open>then\<close> callbacks
  (\<open>checkRemoved_then\<close>) therefore run once the loop has finished, in the order of the
  calls and before any other event; the \<^verbatim>\<open>catch\<close> callbacks do not run.
\<close>

definition checkRemoved_then :: "string \<Rightarrow> state \<Rightarrow> state" where
  "checkRemoved_then key st = st\<lparr>removed := Set_delete key (removed st)\<rparr>"

definition checkRemoved_loop :: "env \<Rightarrow> string list \<Rightarrow> state \<Rightarrow> state" where
  "checkRemoved_loop e keys st =
     fold checkRemoved_then keys (fold (\<lambda>key s. snd (connectTo e key s)) keys st)"

definition checkRemoved :: "env \<Rightarrow> state \<Rightarrow> state" where
  "checkRemoved e st = checkRemoved_loop e (for_in (removed st)) st"

definition replicaFor :: "env \<Rightarrow> string \<Rightarrow> state \<Rightarrow> nat option \<times> state" where
  "replicaFor e root st =
     (case getNode (hash e) (ring st) root of
        None \<Rightarrow>
          (None, logMsg ''all peer nodes marked down'' [(''ring'', JList (map JStr (ring st)))] st)
      | Some upstream \<Rightarrow>
          (let r = connectTo e upstream st in (Some (fst r), snd r)))"

section \<open>The primary store\<close>

text \<open>
  Modelled from the spec: the Primary Store collaborator (the AceBase database, an
  external package). The store is a tree of values addressed by slash-delimited paths;
  \<^verbatim>\<open>ref(path).set(value)\<close> replaces the value at the path, creating the parents it needs;
  reading a path returns the value there (\<open>JUndef\<close> stands for "no value");
  \<^verbatim>\<open>ref(path).push()\<close> returns a reference to a new child of the path whose last segment
  is a generated unique key.
\<close>

fun segments_from :: "string \<Rightarrow> string \<Rightarrow> string list" where
  "segments_from cur [] = (if cur = [] then [] else [cur])"
| "segments_from cur (c # cs) =
     (if c = CHR ''/'' then (if cur = [] then segments_from [] cs else cur # segments_from [] cs)
      else segments_from (cur @ [c]) cs)"

definition segments :: "string \<Rightarrow> string list" where
  "segments p = segments_from [] p"

definition fields :: "jval \<Rightarrow> (string \<times> jval) list" where
  "fields v = (case v of JObj fs \<Rightarrow> fs | _ \<Rightarrow> [])"

definition child :: "jval \<Rightarrow> string \<Rightarrow> jval" where
  "child v k = (case map_of (fields v) k of Some c \<Rightarrow> c | None \<Rightarrow> JUndef)"

fun get_at :: "string list \<Rightarrow> jval \<Rightarrow> jval" where
  "get_at [] v = v"
| "get_at (k # ks) v = get_at ks (child v k)"

fun set_at :: "string list \<Rightarrow> jval \<Rightarrow> jval \<Rightarrow> jval" where
  "set_at [] new v = new"
| "set_at (k # ks) new v = JObj (AList.update k (set_at ks new (child v k)) (fields v))"

definition store_read :: "string \<Rightarrow> state \<Rightarrow> jval" where
  "store_read p st = get_at (segments p) (primary st)"

definition store_set :: "string \<Rightarrow> jval \<Rightarrow> state \<Rightarrow> state" where
  "store_set p v st = st\<lparr>primary := set_at (segments p) v (primary st)\<rparr>"

definition push_path :: "string \<Rightarrow> string \<Rightarrow> string" where
  "push_path p generated = p @ ''/'' @ generated"

section \<open>Write populator and consistency sampler\<close>

definition SAMPLE_COUNT :: nat where
  "SAMPLE_COUNT = 100"

text \<open>\<^verbatim>\<open>xs.slice(-n)\<close>: the last \<open>n\<close> elements, all of them when there are fewer;
  \<^verbatim>\<open>slice(-0)\<close> is \<^verbatim>\<open>slice(0)\<close>, the whole array.\<close>

definition slice_neg :: "nat \<Rightarrow> 'a list \<Rightarrow> 'a list" where
  "slice_neg n xs = (if n = 0 then xs else drop (length xs - n) xs)"

text \<open>
  The two statements of \<^verbatim>\<open>populateRing\<close> that retain a sample:
  \<^verbatim>\<open>sampledValues.push(s); sampledValues = [...sampledValues].slice(-SAMPLE_COUNT)\<close>.
\<close>

definition retain :: "Sample \<Rightarrow> Sample list \<Rightarrow> Sample list" where
  "retain s buf = slice_neg SAMPLE_COUNT (buf @ [s])"

text \<open>
  What one iteration of the loop of \<^verbatim>\<open>populateRing\<close> takes from outside the program: the
  key generated by \<^verbatim>\<open>push()\<close>, the clock (\<^verbatim>\<open>new Date()\<close>), and whether
  \<^verbatim>\<open>Math.random() < SAMPLE_RATE\<close> came out true.
\<close>

record draw =
  pushed :: string
  now :: nat
  sampled :: bool

definition payload_json :: "Payload \<Rightarrow> jval" where
  "payload_json m = JObj [(''msg'', JStr (msg m)), (''ts'', JDate (ts m))]"

text \<open>
  One iteration of the loop of \<^verbatim>\<open>populateRing\<close>, up to the result of \<^verbatim>\<open>replicaFor\<close>:
  \<open>populate_write\<close> is the write to the primary store and the sampling, \<open>populate_obj\<close>
  the whole iteration. The
  write to the replica that follows is asynchronous and is not modelled, nor are the
  \<^verbatim>\<open>success\<close> and \<^verbatim>\<open>failure\<close> counters and the final report, which depend on it.
\<close>

definition payload_for :: "string \<Rightarrow> draw \<Rightarrow> Payload" where
  "payload_for obj d = \<lparr>msg = ''testing for ref '' @ obj, ts = now d\<rparr>"

definition objPath_of :: "string \<Rightarrow> string" where
  "objPath_of obj = ''/test/'' @ obj"

definition populate_write :: "string \<Rightarrow> draw \<Rightarrow> state \<Rightarrow> state" where
  "populate_write obj d st0 =
     (let m = payload_for obj d;
          objPath = objPath_of obj;
          ref_path = push_path objPath (pushed d);
          st1 = store_set ref_path (payload_json m) st0
      in if sampled d
         then st1\<lparr>sampledValues := retain \<lparr>path = objPath, inner = m\<rparr> (sampledValues st1)\<rparr>
         else st1)"

definition populate_obj :: "env \<Rightarrow> string \<Rightarrow> draw \<Rightarrow> state \<Rightarrow> state" where
  "populate_obj e obj d st0 =
     (let st2 = populate_write obj d st0;
          r = replicaFor e (objPath_of obj) st2
      in case fst r of
           None \<Rightarrow> logMsg (''failed to get replica for '' @ quoted obj) [] (snd r)
         | Some upstream \<Rightarrow> snd r)"

definition populateRing :: "env \<Rightarrow> draw list \<Rightarrow> state \<Rightarrow> state" where
  "populateRing e ds st =
     fold (\<lambda>(obj, d). populate_obj e obj d)
          (zip [''a'', ''b'', ''c'', ''d'', ''e'', ''f'', ''g''] ds) (buildRing e st)"

datatype error = TypeError

text \<open>
  \<^verbatim>\<open>val.msg\<close>: reading a property of \<^verbatim>\<open>undefined\<close> or \<^verbatim>\<open>null\<close> throws; on an object it is
  the property's value, or \<^verbatim>\<open>undefined\<close> when the object has no such property; on any
  other value it is \<^verbatim>\<open>undefined\<close>.
\<close>

definition prop_of :: "jval \<Rightarrow> string \<Rightarrow> error + jval" where
  "prop_of v k = (if v = JUndef then Inl TypeError else Inr (child v k))"

text \<open>
  \<^verbatim>\<open>imsg != vmsg\<close> with \<^verbatim>\<open>imsg\<close> a string: two strings differ when they are not the
  same string, and a string differs from \<^verbatim>\<open>undefined\<close>. An object, array or date on the
  right would be compared through its string conversion, which the model does not
  compute; it counts them as different.
\<close>

definition differs :: "string \<Rightarrow> jval \<Rightarrow> bool" where
  "differs imsg vmsg = (vmsg \<noteq> JStr imsg)"

fun testRing_loop :: "Sample list \<Rightarrow> state \<Rightarrow> error option \<times> state" where
  "testRing_loop [] st = (None, st)"
| "testRing_loop (sample # rest) st =
     (let val = store_read (path sample) st in
      case prop_of val ''msg'' of
        Inl err \<Rightarrow> (Some err, st)
      | Inr vmsg \<Rightarrow>
          (let imsg = msg (inner sample) in
           testRing_loop rest
             (if differs imsg vmsg
              then logMsg (''mismatched sample value for '' @ [CHR 0x27] @ path sample)
                     [(''path'', JStr (path sample)), (''imsg'', JStr imsg), (''vmsg'', vmsg)] st
              else st)))"

definition testRing :: "state \<Rightarrow> error option \<times> state" where
  "testRing st = testRing_loop (sampledValues st) st"

section \<open>Startup checks\<close>

text \<open>
  The top of \<^verbatim>\<open>server.ts\<close>, before the servers, the ring and the timers are created.
  \<^verbatim>\<open>process.env.DB_ADMIN_PASSWORD\<close> is a string or \<^verbatim>\<open>undefined\<close>, as is \<^verbatim>\<open>argv.name\<close>.
  \<^verbatim>\<open>serverConfig\<close> is the object literal \<^verbatim>\<open>{ logLevel: 'warn', ...config.server[serverName] }\<close>:
  a default log level and, after it, the properties of the configured entry when there is
  one. The outcome is either \<^verbatim>\<open>process.exit(code)\<close> after a message on the error stream,
  or the coordinator starting (servers, ring and timers are created) with the local name
  and its \<^verbatim>\<open>serverConfig\<close>.
\<close>

record boot =
  DB_ADMIN_PASSWORD :: "string option"
  argv_name :: "string option"
  toml_server :: "(string \<times> ConfigEntry) list"

record ServerConfig =
  logLevel :: string
  entry :: "ConfigEntry option"

datatype 'c outcome = Exit nat string | Started string 'c

definition startup :: "boot \<Rightarrow> ServerConfig outcome" where
  "startup b =
     (let adminPassword = DB_ADMIN_PASSWORD b in
      if adminPassword = Some ''undefined''
      then Exit 1 ''missing DB_ADMIN_PASSWORD environment variable''
      else case argv_name b of
        None \<Rightarrow> Exit 1 ''missing --name argument''
      | Some name \<Rightarrow>
          (let serverConfig = Some \<lparr>logLevel = ''warn'', entry = map_of (toml_server b) name\<rparr> in
           case serverConfig of
             None \<Rightarrow> Exit 1 (''server '' @ name @ '' not found in servers.toml'')
           | Some sc \<Rightarrow> Started name sc))"

section \<open>The second copy of the coordinator\<close>

text \<open>
  The repository holds a second copy of the coordinator, in a source file whose name is
  not known. It differs from \<^verbatim>\<open>server.ts\<close> in three places that matter here: at startup
  \<^verbatim>\<open>serverConfig\<close> is \<^verbatim>\<open>config.server[serverName]\<close> itself; the ring holds cache entries
  \<^verbatim>\<open>{ key, client }\<close> and \<^verbatim>\<open>replicaFor\<close> consults \<^verbatim>\<open>clientCache\<close> before the ring; and
  \<^verbatim>\<open>checkRemoved\<close> creates the client itself and awaits \<^verbatim>\<open>client.ready()\<close>, whose outcome
  the model takes as a parameter (true when it resolves).
\<close>

definition startup_alt :: "boot \<Rightarrow> ConfigEntry outcome" where
  "startup_alt b =
     (let adminPassword = DB_ADMIN_PASSWORD b in
      if adminPassword = Some ''undefined''
      then Exit 1 ''missing DB_ADMIN_PASSWORD environment variable''
      else case argv_name b of
        None \<Rightarrow> Exit 1 ''missing --name argument''
      | Some name \<Rightarrow>
          (let serverConfig = map_of (toml_server b) name in
           case serverConfig of
             None \<Rightarrow> Exit 1 (''server '' @ name @ '' not found in servers.toml'')
           | Some sc \<Rightarrow> Started name sc))"

record CacheEntry =
  ce_key :: string
  ce_client :: nat

record state_alt =
  ring_alt :: "CacheEntry HashRing"
  removed_alt :: js_set
  clientCache :: "(string \<times> CacheEntry) list"
  clients_alt :: "AceBaseClient list"
  out_alt :: "out_entry list"

definition console_alt :: "out_entry \<Rightarrow> state_alt \<Rightarrow> state_alt" where
  "console_alt line st = st\<lparr>out_alt := out_alt st @ [line]\<rparr>"

definition checkRemoved_alt_body :: "env \<Rightarrow> (string \<Rightarrow> bool) \<Rightarrow> string \<Rightarrow> state_alt \<Rightarrow> state_alt" where
  "checkRemoved_alt_body e ready_ok key st0 =
     (let sc = map_of (config_server e) key;
          c = length (clients_alt st0);
          client = \<lparr>c_dbname = dbname e, c_conf = sc, c_key = key, c_status = Pending\<rparr>;
          st = st0\<lparr>clients_alt := clients_alt st0 @ [client]\<rparr>
      in if ready_ok key
         then console_alt (ConsoleLog (''reconnected to server '' @ quoted key))
                (st\<lparr>clients_alt := clients_alt st0 @ [client\<lparr>c_status := Connected\<rparr>],
                    ring_alt := addNode \<lparr>ce_key = key, ce_client = c\<rparr> (ring_alt st),
                    removed_alt := Set_delete key (removed_alt st)\<rparr>)
         else console_alt (ConsoleError (''failed to reconnect to server '' @ quoted key))
                (st\<lparr>clients_alt := clients_alt st0 @ [client\<lparr>c_status := Rejected\<rparr>]\<rparr>))"

definition checkRemoved_alt :: "env \<Rightarrow> (string \<Rightarrow> bool) \<Rightarrow> state_alt \<Rightarrow> state_alt" where
  "checkRemoved_alt e ready_ok st0 =
     (let st1 = console_alt (ConsoleLog ''checkRemoved:begin'') st0;
          st2 = fold (checkRemoved_alt_body e ready_ok) (for_in (removed_alt st1)) st1
      in console_alt (ConsoleLog ''checkRemoved:end'') st2)"

definition replicaFor_alt :: "env \<Rightarrow> string \<Rightarrow> state_alt \<Rightarrow> nat option \<times> state_alt" where
  "replicaFor_alt e root st0 =
     (case map_of (clientCache st0) root of
        Some cacheEntry \<Rightarrow> (Some (ce_client cacheEntry), st0)
      | None \<Rightarrow>
          (let st = console_alt
                 (ConsoleLog (''no cached connection for '' @ quoted root @ ''; trying next host'')) st0
           in case getNode (hash e) (ring_alt st) root of
                None \<Rightarrow> (None, console_alt (ConsoleError ''all peer nodes down!'') st)
              | Some upstream \<Rightarrow>
                  (Some (ce_client upstream),
                   (console_alt (ConsoleLog (''connecting to '' @ quoted (ce_key upstream))) st)
                     \<lparr>clientCache := AList.update root upstream (clientCache st)\<rparr>)))"

section \<open>Events and runs\<close>

text \<open>
  What can happen to the coordinator between two of its own steps: some task calls
  \<^verbatim>\<open>connectTo\<close>, \<^verbatim>\<open>buildRing\<close> or \<^verbatim>\<open>replicaFor\<close>, the reconciler timer fires, the
  populator runs one iteration, the sampler runs, something else writes to the primary store, the
  \<^verbatim>\<open>ready()\<close> promise of a pending client settles, or a client emits \<^verbatim>\<open>disconnect\<close>.
  An event about a client that does not exist changes nothing. Each event is one step: the
  \<^verbatim>\<open>await\<close>s inside an iteration of the populator and inside the sampler are not
  interleaving points of the model.
\<close>

datatype event =
    CallConnect string
  | CallBuildRing
  | Lookup string
  | Tick
  | PopulateObj string draw
  | RunSampler
  | ExternalWrite string jval
  | Ready nat
  | ReadyFailed nat
  | Disconnect nat

definition is_pending :: "nat \<Rightarrow> state \<Rightarrow> bool" where
  "is_pending c st = (c < length (clients st) \<and> c_status (clients st ! c) = Pending)"

fun step :: "env \<Rightarrow> event \<Rightarrow> state \<Rightarrow> state" where
  "step e (CallConnect key) st = snd (connectTo e key st)"
| "step e CallBuildRing st = buildRing e st"
| "step e (Lookup root) st = snd (replicaFor e root st)"
| "step e Tick st = checkRemoved e st"
| "step e (PopulateObj obj d) st = populate_obj e obj d st"
| "step e RunSampler st = snd (testRing st)"
| "step e (ExternalWrite p v) st = store_set p v st"
| "step e (Ready c) st =
     (if is_pending c st then set_status c Connected (on_ready c st) else st)"
| "step e (ReadyFailed c) st =
     (if is_pending c st then set_status c Rejected (on_ready_failed c st) else st)"
| "step e (Disconnect c) st =
     (if c < length (clients st) then set_status c Disconnected (on_disconnect c st) else st)"

definition run :: "env \<Rightarrow> event list \<Rightarrow> state \<Rightarrow> state" where
  "run e evs st = fold (step e) evs st"

section \<open>Invariants and observations\<close>

text \<open>
  The registry invariant: every identifier registered with the ring has an entry in the
  connections map (\<open>ring_within_connections\<close>), and every entry of the connections map
  holds the handle of a client that was created for that identifier and is connected
  (\<open>handle_live\<close>).
\<close>

definition ring_within_connections :: "state \<Rightarrow> bool" where
  "ring_within_connections st = (set (ring st) \<subseteq> fst ` set (connections st))"

definition handle_live :: "state \<Rightarrow> string \<times> nat \<Rightarrow> bool" where
  "handle_live st kc =
     (snd kc < length (clients st) \<and> c_key (clients st ! snd kc) = fst kc
      \<and> c_status (clients st ! snd kc) = Connected)"

definition registry_inv :: "state \<Rightarrow> bool" where
  "registry_inv st = (ring_within_connections st \<and> list_all (handle_live st) (connections st))"

text \<open>
  \<open>grows st st'\<close>: \<open>st'\<close> has the ring and the connections map of \<open>st\<close>, and the clients
  of \<open>st\<close> unchanged, possibly followed by new ones.
\<close>

definition grows :: "state \<Rightarrow> state \<Rightarrow> bool" where
  "grows st st' = (ring st' = ring st \<and> connections st' = connections st
     \<and> (\<exists>cs. clients st' = clients st @ cs))"

text \<open>The sample that an event retains, if any.\<close>

fun sampled_by :: "event \<Rightarrow> Sample list" where
  "sampled_by (PopulateObj obj d) =
     (if sampled d then [\<lparr>path = objPath_of obj, inner = payload_for obj d\<rparr>] else [])"
| "sampled_by _ = []"

text \<open>The identifier for which the client behind a returned handle was created.\<close>

definition handle_node :: "nat option \<times> state \<Rightarrow> string option" where
  "handle_node r = map_option (\<lambda>c. c_key (clients (snd r) ! c)) (fst r)"

text \<open>The handles of the connected clients that were created for an identifier.\<close>

definition live_connections :: "string \<Rightarrow> state \<Rightarrow> nat list" where
  "live_connections key st =
     filter (\<lambda>c. c_key (clients st ! c) = key \<and> c_status (clients st ! c) = Connected)
       [0..<length (clients st)]"

text \<open>A configuration of three nodes, \<open>a\<close> being the local one, for concrete runs.\<close>

definition demo_env :: env where
  "demo_env =
     \<lparr>config_server =
        [(''a'', \<lparr>host = ''localhost'', port = 5757, https = False\<rparr>),
         (''b'', \<lparr>host = ''localhost'', port = 5758, https = False\<rparr>),
         (''c'', \<lparr>host = ''localhost'', port = 5759, https = False\<rparr>)],
      dbname = ''ring'', serverName = ''a'', hash = length\<rparr>"

section \<open>Frame lemmas\<close>

lemma connectTo_frame:
  "ring (snd (connectTo e key st)) = ring st"
  "connections (snd (connectTo e key st)) = connections st"
  "removed (snd (connectTo e key st)) = removed st"
  "sampledValues (snd (connectTo e key st)) = sampledValues st"
  "primary (snd (connectTo e key st)) = primary st"
  "out (snd (connectTo e key st)) = out st"
  "calls (snd (connectTo e key st)) = calls st @ [key]"
  by (simp_all add: connectTo_def Let_def split: option.split)

lemma connectTo_clients:
  "\<exists>cs. clients (snd (connectTo e key st)) = clients st @ cs"
  by (simp add: connectTo_def Let_def split: option.split)

lemma handle_live_append:
  "handle_live st kc \<Longrightarrow> clients st' = clients st @ cs \<Longrightarrow> handle_live st' kc"
  by (simp add: handle_live_def nth_append)

lemma registry_inv_extend:
  assumes "registry_inv st" "ring st' = ring st" "connections st' = connections st"
    "clients st' = clients st @ cs"
  shows "registry_inv st'"
  using assms
  by (auto simp: registry_inv_def ring_within_connections_def list_all_iff
      intro: handle_live_append)

lemma registry_inv_connectTo: "registry_inv st \<Longrightarrow> registry_inv (snd (connectTo e key st))"
  using connectTo_clients[of e key st]
  by (auto intro: registry_inv_extend simp: connectTo_frame)

lemma grows_refl: "grows st st"
  by (simp add: grows_def)

lemma grows_trans: "grows a b \<Longrightarrow> grows b c \<Longrightarrow> grows a c"
  by (auto simp: grows_def)

lemma registry_inv_grows:
  assumes "registry_inv st" "grows st st'"
  shows "registry_inv st'"
  using assms by (auto intro: registry_inv_extend simp: grows_def)

lemma grows_connectTo: "grows st (snd (connectTo e key st))"
  using connectTo_clients[of e key st] by (auto simp: grows_def connectTo_frame)

lemma grows_fold:
  assumes "\<And>x s. grows s (f x s)"
  shows "grows st (fold f xs st)"
proof (induction xs arbitrary: st)
  case Nil
  show ?case by (simp add: grows_refl)
next
  case (Cons x xs)
  have "grows st (f x st)" by (rule assms)
  moreover have "grows (f x st) (fold f xs (f x st))" by (rule Cons.IH)
  ultimately show ?case by (auto intro: grows_trans)
qed

lemma grows_buildRing: "grows st (buildRing e st)"
  unfolding buildRing_def
  by (rule grows_fold) (simp add: grows_refl grows_connectTo)

lemma grows_checkRemoved_loop: "grows st (checkRemoved_loop e keys st)"
proof -
  have a: "grows st (fold (\<lambda>key s. snd (connectTo e key s)) keys st)"
    by (rule grows_fold) (rule grows_connectTo)
  have b: "grows s (fold checkRemoved_then keys s)" for s
    by (rule grows_fold) (simp add: grows_def checkRemoved_then_def)
  from a b show ?thesis
    unfolding checkRemoved_loop_def by (rule grows_trans)
qed

lemma grows_checkRemoved: "grows st (checkRemoved e st)"
  unfolding checkRemoved_def by (rule grows_checkRemoved_loop)

lemma grows_logMsg: "grows st (logMsg m extra st)"
  by (simp add: grows_def logMsg_def)

lemma grows_replicaFor: "grows st (snd (replicaFor e root st))"
  by (simp add: replicaFor_def Let_def grows_logMsg grows_connectTo split: option.split)

lemma grows_store_set: "grows st (store_set p v st)"
  by (simp add: grows_def store_set_def)

lemma grows_populate_write: "grows st (populate_write obj d st)"
  by (simp add: populate_write_def Let_def grows_def store_set_def)

lemma grows_populate_obj: "grows st (populate_obj e obj d st)"
proof -
  have a: "grows st (populate_write obj d st)"
    by (rule grows_populate_write)
  have b: "grows (populate_write obj d st)
             (snd (replicaFor e (objPath_of obj) (populate_write obj d st)))"
    by (rule grows_replicaFor)
  from a b have c: "grows st (snd (replicaFor e (objPath_of obj) (populate_write obj d st)))"
    by (rule grows_trans)
  show ?thesis
    unfolding populate_obj_def Let_def
    by (auto split: option.split intro: c grows_trans[OF c grows_logMsg])
qed

lemma grows_testRing_loop: "grows st (snd (testRing_loop ss st))"
proof (induction ss arbitrary: st)
  case Nil
  show ?case by (simp add: grows_refl)
next
  case (Cons s ss)
  show ?case
  proof (cases "prop_of (store_read (path s) st) ''msg''")
    case (Inl err)
    then show ?thesis by (simp add: grows_refl)
  next
    case (Inr vmsg)
    show ?thesis
    proof (cases "differs (msg (inner s)) vmsg")
      case True
      with Inr show ?thesis
        using grows_trans[OF grows_logMsg Cons.IH] by simp
    next
      case False
      with Inr show ?thesis using Cons.IH by simp
    qed
  qed
qed

lemma grows_testRing: "grows st (snd (testRing st))"
  by (simp add: testRing_def grows_testRing_loop)

section \<open>The registry invariant\<close>

lemma set_update_subset: "set (AList.update k v al) \<subseteq> insert (k, v) (set al)"
  by (induction al) auto

lemma fst_set_update: "fst ` set (AList.update k v al) = insert k (fst ` set al)"
  by (induction al) auto

lemma fst_set_delete: "fst ` set (AList.delete k al) = fst ` set al - {k}"
  by (induction al) auto

lemma registry_inv_ready:
  assumes inv: "registry_inv st" and pend: "is_pending c st"
  shows "registry_inv (set_status c Connected (on_ready c st))"
proof -
  let ?k = "c_key (clients st ! c)"
  let ?st' = "set_status c Connected (on_ready c st)"
  have ring': "ring ?st' = addNode ?k (ring st)"
    and conn': "connections ?st' = AList.update ?k c (connections st)"
    and cl': "clients ?st' = (clients st)[c := (clients st ! c)\<lparr>c_status := Connected\<rparr>]"
    by (simp_all add: set_status_def on_ready_def console_log_def Let_def)
  from pend have c: "c < length (clients st)" "c_status (clients st ! c) = Pending"
    by (simp_all add: is_pending_def)
  have sub: "ring_within_connections ?st'"
    using inv
    by (auto simp: registry_inv_def ring_within_connections_def ring' conn' addNode_def
        fst_set_update)
  have live: "handle_live ?st' kc" if "kc \<in> set (connections ?st')" for kc
  proof (cases "kc = (?k, c)")
    case True
    with c show ?thesis by (simp add: handle_live_def cl')
  next
    case False
    with that have "kc \<in> set (connections st)"
      using set_update_subset[of ?k c "connections st"] by (auto simp: conn')
    with inv have h: "handle_live st kc"
      by (simp add: registry_inv_def list_all_iff)
    with c have "snd kc \<noteq> c" by (auto simp: handle_live_def)
    with h show ?thesis by (simp add: handle_live_def cl')
  qed
  from sub live show ?thesis
    by (simp add: registry_inv_def list_all_iff)
qed

lemma registry_inv_ready_failed:
  assumes inv: "registry_inv st" and pend: "is_pending c st"
  shows "registry_inv (set_status c Rejected (on_ready_failed c st))"
proof -
  let ?st' = "set_status c Rejected (on_ready_failed c st)"
  have ring': "ring ?st' = ring st"
    and conn': "connections ?st' = connections st"
    and cl': "clients ?st' = (clients st)[c := (clients st ! c)\<lparr>c_status := Rejected\<rparr>]"
    by (simp_all add: set_status_def on_ready_failed_def console_log_def)
  from pend have c: "c < length (clients st)" "c_status (clients st ! c) = Pending"
    by (simp_all add: is_pending_def)
  have live: "handle_live ?st' kc" if "kc \<in> set (connections st)" for kc
  proof -
    from that inv have h: "handle_live st kc"
      by (simp add: registry_inv_def list_all_iff)
    with c have "snd kc \<noteq> c" by (auto simp: handle_live_def)
    with h show ?thesis by (simp add: handle_live_def cl')
  qed
  from inv live show ?thesis
    by (simp add: registry_inv_def list_all_iff ring_within_connections_def ring' conn')
qed

lemma registry_inv_disconnect:
  assumes inv: "registry_inv st" and c: "c < length (clients st)"
  shows "registry_inv (set_status c Disconnected (on_disconnect c st))"
proof -
  let ?k = "c_key (clients st ! c)"
  let ?st' = "set_status c Disconnected (on_disconnect c st)"
  have ring': "ring ?st' = removeNode ?k (ring st)"
    and conn': "connections ?st' = AList.delete ?k (connections st)"
    and cl': "clients ?st' = (clients st)[c := (clients st ! c)\<lparr>c_status := Disconnected\<rparr>]"
    by (simp_all add: set_status_def on_disconnect_def console_log_def Let_def)
  have sub: "ring_within_connections ?st'"
    using inv
    by (auto simp: registry_inv_def ring_within_connections_def ring' conn' removeNode_def
        fst_set_delete)
  have live: "handle_live ?st' kc" if "kc \<in> set (connections ?st')" for kc
  proof -
    from that have mem: "kc \<in> set (connections st)" and k: "fst kc \<noteq> ?k"
      by (auto simp: conn' AList.delete_eq)
    from mem inv have h: "handle_live st kc"
      by (simp add: registry_inv_def list_all_iff)
    with k have "snd kc \<noteq> c" by (auto simp: handle_live_def)
    with h show ?thesis by (simp add: handle_live_def cl')
  qed
  from sub live show ?thesis
    by (simp add: registry_inv_def list_all_iff)
qed

lemma registry_inv_init: "registry_inv init_state"
  by (simp add: registry_inv_def ring_within_connections_def init_state_def)

lemma registry_inv_step: "registry_inv st \<Longrightarrow> registry_inv (step e ev st)"
proof (cases ev)
  case (CallConnect key)
  assume "registry_inv st"
  then show ?thesis unfolding CallConnect step.simps
    by (rule registry_inv_grows) (rule grows_connectTo)
next
  case CallBuildRing
  assume "registry_inv st"
  then show ?thesis unfolding CallBuildRing step.simps
    by (rule registry_inv_grows) (rule grows_buildRing)
next
  case (Lookup root)
  assume "registry_inv st"
  then show ?thesis unfolding Lookup step.simps
    by (rule registry_inv_grows) (rule grows_replicaFor)
next
  case Tick
  assume "registry_inv st"
  then show ?thesis unfolding Tick step.simps
    by (rule registry_inv_grows) (rule grows_checkRemoved)
next
  case (PopulateObj obj d)
  assume "registry_inv st"
  then show ?thesis unfolding PopulateObj step.simps
    by (rule registry_inv_grows) (rule grows_populate_obj)
next
  case RunSampler
  assume "registry_inv st"
  then show ?thesis unfolding RunSampler step.simps
    by (rule registry_inv_grows) (rule grows_testRing)
next
  case (ExternalWrite p v)
  assume "registry_inv st"
  then show ?thesis unfolding ExternalWrite step.simps
    by (rule registry_inv_grows) (rule grows_store_set)
next
  case (Ready c)
  assume "registry_inv st"
  then show ?thesis unfolding Ready step.simps
    by (simp add: registry_inv_ready)
next
  case (ReadyFailed c)
  assume "registry_inv st"
  then show ?thesis unfolding ReadyFailed step.simps
    by (simp add: registry_inv_ready_failed)
next
  case (Disconnect c)
  assume "registry_inv st"
  then show ?thesis unfolding Disconnect step.simps
    by (simp add: registry_inv_disconnect)
qed

lemma registry_inv_run: "registry_inv st \<Longrightarrow> registry_inv (run e evs st)"
  unfolding run_def
  by (induction evs arbitrary: st) (simp_all add: registry_inv_step)

text \<open>
  C5. In every state the coordinator can reach, the identifiers registered with the
  ring are among the keys of the connections map, and each entry of that map is the
  handle of a connected client created for its key. Every event preserves this: a call of
  \<^verbatim>\<open>connectTo\<close>, the ready callback (connect success), the disconnect listener, the
  reconciler tick, the router lookup, and the populator and sampler steps.
\<close>

theorem ring_subset_of_live_connections:
  "registry_inv (run e evs init_state)
   \<and> set (ring (run e evs init_state)) \<subseteq> fst ` set (connections (run e evs init_state))
   \<and> (registry_inv st \<longrightarrow> registry_inv (step e ev st))"
proof -
  have "registry_inv (run e evs init_state)"
    by (rule registry_inv_run) (rule registry_inv_init)
  then show ?thesis
    by (simp add: registry_inv_step) (simp add: registry_inv_def ring_within_connections_def)
qed

theorem ring_subset_of_live_connections_witness:
  "registry_inv (run demo_env [CallConnect ''b'', Ready 0] init_state)
   \<and> ring (run demo_env [CallConnect ''b'', Ready 0] init_state) = [''b'']
   \<and> connections (run demo_env [CallConnect ''b'', Ready 0] init_state) = [(''b'', 0)]
   \<and> registry_inv (step demo_env (Disconnect 0)
         (run demo_env [CallConnect ''b'', Ready 0] init_state))
   \<and> ring (step demo_env (Disconnect 0)
         (run demo_env [CallConnect ''b'', Ready 0] init_state)) = []"
proof -
  let ?S = "run demo_env [CallConnect ''b'', Ready 0] init_state"
  note t = ring_subset_of_live_connections[of demo_env "[CallConnect ''b'', Ready 0]" ?S "Disconnect 0"]
  from t have a: "registry_inv ?S" by blast
  with t have b: "registry_inv (step demo_env (Disconnect 0) ?S)" by blast
  have c: "ring ?S = [''b'']" "connections ?S = [(''b'', 0)]"
    "ring (step demo_env (Disconnect 0) ?S) = []"
    by code_simp+
  from a b c show ?thesis by simp
qed

section \<open>Idempotence of \<^verbatim>\<open>connectTo\<close>\<close>

text \<open>
  C6. \<^verbatim>\<open>connectTo\<close> is idempotent: when the connections map already holds a handle for
  the key, the call returns that handle, creates no client object, and leaves the
  connections map, the ring, the removed set and everything else as they were (only the
  history of calls grows).
\<close>

theorem connectTo_idempotent:
  assumes "map_of (connections st) key = Some c"
  shows "connectTo e key st = (c, st\<lparr>calls := calls st @ [key]\<rparr>)
    \<and> clients (snd (connectTo e key st)) = clients st
    \<and> connections (snd (connectTo e key st)) = connections st
    \<and> ring (snd (connectTo e key st)) = ring st
    \<and> removed (snd (connectTo e key st)) = removed st
    \<and> fst (connectTo e key (snd (connectTo e key st))) = c"
  using assms by (simp add: connectTo_def)

theorem connectTo_idempotent_witness:
  "map_of (connections (run demo_env [CallConnect ''b'', Ready 0] init_state)) ''b'' = Some 0
   \<and> fst (connectTo demo_env ''b'' (run demo_env [CallConnect ''b'', Ready 0] init_state)) = 0
   \<and> length (clients (snd (connectTo demo_env ''b''
         (run demo_env [CallConnect ''b'', Ready 0] init_state)))) = 1"
proof -
  let ?S = "run demo_env [CallConnect ''b'', Ready 0] init_state"
  have h: "map_of (connections ?S) ''b'' = Some 0" by code_simp
  have n: "length (clients ?S) = 1" by code_simp
  from connectTo_idempotent[OF h, of demo_env] h n show ?thesis by simp
qed

section \<open>The sample buffer\<close>

lemma length_retain: "length (retain s buf) \<le> SAMPLE_COUNT"
  by (simp add: retain_def slice_neg_def SAMPLE_COUNT_def)

lemma retain_slice:
  "retain s (slice_neg SAMPLE_COUNT xs) = slice_neg SAMPLE_COUNT (xs @ [s])"
proof (cases "length xs < SAMPLE_COUNT")
  case True
  then show ?thesis by (simp add: retain_def slice_neg_def SAMPLE_COUNT_def)
next
  case False
  then have "length xs - (length xs - 100 + 99) + (length xs - 100) = length xs - 99"
    by (simp add: SAMPLE_COUNT_def)
  then show ?thesis using False
    by (simp add: retain_def slice_neg_def SAMPLE_COUNT_def)
qed

lemma fold_retain_slice:
  "fold retain ss (slice_neg SAMPLE_COUNT xs) = slice_neg SAMPLE_COUNT (xs @ ss)"
proof (induction ss arbitrary: xs)
  case Nil
  show ?case by simp
next
  case (Cons s ss)
  have "fold retain (s # ss) (slice_neg SAMPLE_COUNT xs)
      = fold retain ss (slice_neg SAMPLE_COUNT (xs @ [s]))"
    by (simp add: retain_slice)
  also have "\<dots> = slice_neg SAMPLE_COUNT ((xs @ [s]) @ ss)"
    by (rule Cons.IH)
  finally show ?case by simp
qed

lemma fold_retain_empty: "fold retain ss [] = slice_neg SAMPLE_COUNT ss"
  using fold_retain_slice[of ss "[]"] by (simp add: slice_neg_def SAMPLE_COUNT_def)

lemma fold_keeps:
  assumes "\<And>x s. g (f x s) = g s"
  shows "g (fold f xs st) = g st"
  by (induction xs arbitrary: st) (simp_all add: assms)

lemma samples_logMsg: "sampledValues (logMsg m extra st) = sampledValues st"
  by (simp add: logMsg_def)

lemma samples_buildRing: "sampledValues (buildRing e st) = sampledValues st"
  unfolding buildRing_def by (rule fold_keeps) (simp add: connectTo_frame)

lemma samples_checkRemoved: "sampledValues (checkRemoved e st) = sampledValues st"
proof -
  have a: "sampledValues (fold (\<lambda>key s. snd (connectTo e key s)) keys s) = sampledValues s"
    for keys s
    by (rule fold_keeps) (simp add: connectTo_frame)
  have b: "sampledValues (fold checkRemoved_then keys s) = sampledValues s" for keys s
    by (rule fold_keeps) (simp add: checkRemoved_then_def)
  show ?thesis by (simp add: checkRemoved_def checkRemoved_loop_def a b)
qed

lemma samples_replicaFor: "sampledValues (snd (replicaFor e root st)) = sampledValues st"
  by (simp add: replicaFor_def Let_def samples_logMsg connectTo_frame split: option.split)

lemma samples_testRing_loop: "sampledValues (snd (testRing_loop ss st)) = sampledValues st"
proof (induction ss arbitrary: st)
  case Nil
  show ?case by simp
next
  case (Cons s ss)
  show ?case
  proof (cases "prop_of (store_read (path s) st) ''msg''")
    case (Inl err)
    then show ?thesis by simp
  next
    case (Inr vmsg)
    then show ?thesis by (simp add: Let_def Cons.IH samples_logMsg)
  qed
qed

lemma samples_populate_write:
  "sampledValues (populate_write obj d st) =
     fold retain (sampled_by (PopulateObj obj d)) (sampledValues st)"
  by (simp add: populate_write_def Let_def store_set_def)

lemma samples_populate_obj:
  "sampledValues (populate_obj e obj d st) =
     fold retain (sampled_by (PopulateObj obj d)) (sampledValues st)"
  unfolding populate_obj_def Let_def
  by (simp add: samples_replicaFor samples_logMsg samples_populate_write split: option.split)

lemma samples_step:
  "sampledValues (step e ev st) = fold retain (sampled_by ev) (sampledValues st)"
proof (cases ev)
  case (PopulateObj obj d)
  show ?thesis unfolding PopulateObj step.simps by (rule samples_populate_obj)
next
  case RunSampler
  show ?thesis unfolding RunSampler by (simp add: testRing_def samples_testRing_loop)
qed (simp_all add: connectTo_frame samples_buildRing samples_checkRemoved samples_replicaFor
      store_set_def set_status_def on_ready_def on_ready_failed_def on_disconnect_def
      console_log_def Let_def)

lemma samples_run:
  "sampledValues (run e evs st) = fold retain (concat (map sampled_by evs)) (sampledValues st)"
  unfolding run_def
  by (induction evs arbitrary: st) (simp_all add: samples_step)

lemma populateRing_as_run:
  "populateRing e ds st =
     run e (CallBuildRing #
            map (\<lambda>(obj, d). PopulateObj obj d)
                (zip [''a'', ''b'', ''c'', ''d'', ''e'', ''f'', ''g''] ds)) st"
proof -
  have "fold (\<lambda>(obj, d). populate_obj e obj d) ps s
      = fold (step e) (map (\<lambda>(obj, d). PopulateObj obj d) ps) s" for ps s
    by (induction ps arbitrary: s) auto
  then show ?thesis by (simp add: populateRing_def run_def)
qed


text \<open>
  C7. After every sampling step of the populator the buffer holds at most
  \<open>SAMPLE_COUNT = 100\<close> records, and after any run from the initial state it holds exactly
  the most recently sampled \<open>100\<close> records (all of them when fewer were sampled), in the
  order in which they were sampled: the oldest are evicted first.
\<close>

theorem sample_buffer_bounded_fifo:
  "length (retain s buf) \<le> SAMPLE_COUNT
   \<and> sampledValues (populate_obj e obj d st) =
       (if sampled d then retain \<lparr>path = objPath_of obj, inner = payload_for obj d\<rparr> (sampledValues st)
        else sampledValues st)
   \<and> sampledValues (run e evs init_state) =
       drop (length (concat (map sampled_by evs)) - SAMPLE_COUNT) (concat (map sampled_by evs))
   \<and> length (sampledValues (run e evs init_state)) \<le> SAMPLE_COUNT"
proof -
  have a: "sampledValues (run e evs init_state) = slice_neg SAMPLE_COUNT (concat (map sampled_by evs))"
    by (simp add: samples_run init_state_def fold_retain_empty)
  have b: "slice_neg SAMPLE_COUNT xs = drop (length xs - SAMPLE_COUNT) xs" for xs :: "Sample list"
    by (simp add: slice_neg_def SAMPLE_COUNT_def)
  have c: "sampledValues (populate_obj e obj d st) =
       (if sampled d then retain \<lparr>path = objPath_of obj, inner = payload_for obj d\<rparr> (sampledValues st)
        else sampledValues st)"
    by (simp add: samples_populate_obj)
  show ?thesis
    unfolding a b using c by (simp add: length_retain)
qed

section \<open>The replica router\<close>

lemma getNode_None_iff: "getNode h r key = None \<longleftrightarrow> r = []"
  by (simp add: getNode_def)

lemma getNode_member: "getNode h r key = Some n \<Longrightarrow> n \<in> set r"
  by (auto simp: getNode_def split: if_splits)

lemma replicaFor_stored_handle:
  assumes "registry_inv st" and "getNode (hash e) (ring st) root = Some owner"
  shows "map_of (connections st) owner = fst (replicaFor e root st)
       \<and> clients (snd (replicaFor e root st)) = clients st"
proof -
  from assms(2) have "owner \<in> set (ring st)" by (rule getNode_member)
  with assms(1) have "owner \<in> fst ` set (connections st)"
    by (auto simp: registry_inv_def ring_within_connections_def)
  then obtain c where c: "map_of (connections st) owner = Some c"
    by (metis map_of_eq_None_iff not_Some_eq)
  with assms(2) show ?thesis
    by (simp add: replicaFor_def Let_def connectTo_def)
qed


text \<open>
  C3. \<^verbatim>\<open>replicaFor\<close> returns \<^verbatim>\<open>undefined\<close> exactly when the ring returns no owner for the
  key, which is exactly when the membership is empty, and it then writes the report entry
  \<^verbatim>\<open>all peer nodes marked down\<close>. When the ring returns an owner, \<^verbatim>\<open>replicaFor\<close> returns
  the handle that \<^verbatim>\<open>connectTo(owner)\<close> returns and makes the changes that call makes.
  \<^verbatim>\<open>connectTo\<close> always returns a handle, it has no failing path of its own; and in a state
  that satisfies the registry invariant (every reachable state does) the owner has an entry
  in the connections map, so that the handle returned is the stored one and no connection
  is attempted.
\<close>

theorem replicaFor_unavailable_iff:
  "(fst (replicaFor e root st) = None \<longleftrightarrow> getNode (hash e) (ring st) root = None)
   \<and> (getNode (hash e) (ring st) root = None \<longleftrightarrow> ring st = [])
   \<and> (getNode (hash e) (ring st) root = None \<longrightarrow>
        snd (replicaFor e root st) =
          logMsg ''all peer nodes marked down'' [(''ring'', JList (map JStr (ring st)))] st)
   \<and> (getNode (hash e) (ring st) root = Some owner \<longrightarrow>
        owner \<in> set (ring st)
        \<and> replicaFor e root st = (Some (fst (connectTo e owner st)), snd (connectTo e owner st)))
   \<and> (registry_inv st \<and> getNode (hash e) (ring st) root = Some owner \<longrightarrow>
        map_of (connections st) owner = fst (replicaFor e root st)
        \<and> clients (snd (replicaFor e root st)) = clients st)"
proof -
  have fast: "registry_inv st \<and> getNode (hash e) (ring st) root = Some owner \<longrightarrow>
        map_of (connections st) owner = fst (replicaFor e root st)
        \<and> clients (snd (replicaFor e root st)) = clients st"
    using replicaFor_stored_handle[of st e root owner] by blast
  show ?thesis
  proof (cases "getNode (hash e) (ring st) root")
    case None
    then have "ring st = []"
      by (simp add: getNode_None_iff)
    then show ?thesis
      by (simp add: replicaFor_def getNode_def)
  next
    case (Some upstream)
    then have "ring st \<noteq> []" "upstream \<in> set (ring st)"
      using getNode_None_iff[of "hash e" "ring st" root]
        getNode_member[of "hash e" "ring st" root upstream]
      by simp_all
    with Some fast show ?thesis
      by (auto simp: replicaFor_def Let_def)
  qed
qed

theorem replicaFor_unavailable_iff_witness:
  "getNode (hash demo_env) (ring init_state) ''/test/a'' = None
   \<and> fst (replicaFor demo_env ''/test/a'' init_state) = None
   \<and> out (snd (replicaFor demo_env ''/test/a'' init_state)) =
        [Report [(''msg'', JStr ''all peer nodes marked down''), (''ring'', JList [])]]
   \<and> registry_inv (run demo_env [CallConnect ''b'', Ready 0] init_state)
   \<and> getNode (hash demo_env) (ring (run demo_env [CallConnect ''b'', Ready 0] init_state)) ''/test/a''
        = Some ''b''
   \<and> fst (replicaFor demo_env ''/test/a'' (run demo_env [CallConnect ''b'', Ready 0] init_state))
        = Some 0
   \<and> map_of (connections (run demo_env [CallConnect ''b'', Ready 0] init_state)) ''b'' = Some 0
   \<and> clients (snd (replicaFor demo_env ''/test/a''
        (run demo_env [CallConnect ''b'', Ready 0] init_state)))
        = clients (run demo_env [CallConnect ''b'', Ready 0] init_state)"
proof -
  let ?S = "run demo_env [CallConnect ''b'', Ready 0] init_state"
  have n: "getNode (hash demo_env) (ring init_state) ''/test/a'' = None" by code_simp
  have s: "getNode (hash demo_env) (ring ?S) ''/test/a'' = Some ''b''" by code_simp
  have c: "fst (connectTo demo_env ''b'' ?S) = 0" by code_simp
  have i: "registry_inv ?S" by (rule registry_inv_run) (rule registry_inv_init)
  have l: "out (logMsg ''all peer nodes marked down'' [(''ring'', JList (map JStr (ring init_state)))]
             init_state) = [Report [(''msg'', JStr ''all peer nodes marked down''), (''ring'', JList [])]]"
    by code_simp
  from replicaFor_unavailable_iff[of demo_env "''/test/a''" init_state] n l
  have a: "fst (replicaFor demo_env ''/test/a'' init_state) = None
     \<and> out (snd (replicaFor demo_env ''/test/a'' init_state)) =
        [Report [(''msg'', JStr ''all peer nodes marked down''), (''ring'', JList [])]]"
    by simp
  note t = replicaFor_unavailable_iff[of demo_env "''/test/a''" ?S "''b''"]
  from t s have "replicaFor demo_env ''/test/a'' ?S
      = (Some (fst (connectTo demo_env ''b'' ?S)), snd (connectTo demo_env ''b'' ?S))"
    by blast
  with c have b1: "fst (replicaFor demo_env ''/test/a'' ?S) = Some 0"
    by simp
  from t s i have b2: "map_of (connections ?S) ''b'' = fst (replicaFor demo_env ''/test/a'' ?S)
     \<and> clients (snd (replicaFor demo_env ''/test/a'' ?S)) = clients ?S"
    by blast
  from b1 b2 have b: "fst (replicaFor demo_env ''/test/a'' ?S) = Some 0
     \<and> map_of (connections ?S) ''b'' = Some 0
     \<and> clients (snd (replicaFor demo_env ''/test/a'' ?S)) = clients ?S"
    by simp
  from n s i a b show ?thesis by simp
qed

lemma connectTo_handle_key:
  assumes "registry_inv st"
  shows "c_key (clients (snd (connectTo e key st)) ! fst (connectTo e key st)) = key"
proof (cases "map_of (connections st) key")
  case None
  then show ?thesis by (simp add: connectTo_def Let_def)
next
  case (Some c)
  then have "(key, c) \<in> set (connections st)" by (rule map_of_SomeD)
  with assms have "handle_live st (key, c)"
    by (simp add: registry_inv_def list_all_iff)
  with Some show ?thesis by (simp add: connectTo_def handle_live_def)
qed

lemma replicaFor_ring: "ring (snd (replicaFor e root st)) = ring st"
  using grows_replicaFor[of st e root] by (simp add: grows_def)

text \<open>
  C8. Under a non-empty membership, two calls of \<^verbatim>\<open>replicaFor\<close> for the same key made in
  states with the same ring resolve the same owner: the ring names the same member, both
  calls pass it to \<^verbatim>\<open>connectTo\<close>, and in states that satisfy the registry invariant (all
  reachable states do) the handles they return belong to clients created for it. The call
  itself leaves the ring unchanged.
\<close>

theorem replicaFor_deterministic:
  assumes "ring st \<noteq> []" and "ring st' = ring st"
  shows "\<exists>owner. owner \<in> set (ring st)
     \<and> getNode (hash e) (ring st) k = Some owner
     \<and> getNode (hash e) (ring st') k = Some owner
     \<and> last (calls (snd (replicaFor e k st))) = owner
     \<and> last (calls (snd (replicaFor e k st'))) = owner
     \<and> (registry_inv st \<longrightarrow> handle_node (replicaFor e k st) = Some owner)
     \<and> (registry_inv st' \<longrightarrow> handle_node (replicaFor e k st') = Some owner)
     \<and> ring (snd (replicaFor e k st)) = ring st"
proof -
  from assms(1) obtain owner where o: "getNode (hash e) (ring st) k = Some owner"
    by (auto simp: getNode_def)
  then have m: "owner \<in> set (ring st)" by (rule getNode_member)
  from o assms(2) have o': "getNode (hash e) (ring st') k = Some owner" by simp
  have r: "replicaFor e k s = (Some (fst (connectTo e owner s)), snd (connectTo e owner s))"
    if "getNode (hash e) (ring s) k = Some owner" for s
    using that by (simp add: replicaFor_def Let_def)
  have h: "handle_node (replicaFor e k s) = Some owner"
    if "getNode (hash e) (ring s) k = Some owner" "registry_inv s" for s
    using that by (simp add: r handle_node_def connectTo_handle_key)
  have c: "last (calls (snd (replicaFor e k s))) = owner"
    if "getNode (hash e) (ring s) k = Some owner" for s
    using that by (simp add: r connectTo_frame)
  from m o o' h[OF o] h[OF o'] c[OF o] c[OF o'] show ?thesis
    by (auto simp: replicaFor_ring)
qed

theorem replicaFor_deterministic_witness:
  "ring (run demo_env [CallConnect ''b'', Ready 0, CallConnect ''c'', Ready 1] init_state) = [''b'', ''c'']
   \<and> handle_node (replicaFor demo_env ''/test/a''
        (run demo_env [CallConnect ''b'', Ready 0, CallConnect ''c'', Ready 1] init_state)) = Some ''c''
   \<and> handle_node (replicaFor demo_env ''/test/a''
        (snd (replicaFor demo_env ''/test/a''
          (run demo_env [CallConnect ''b'', Ready 0, CallConnect ''c'', Ready 1] init_state)))) = Some ''c''"
proof -
  let ?S = "run demo_env [CallConnect ''b'', Ready 0, CallConnect ''c'', Ready 1] init_state"
  let ?S' = "snd (replicaFor demo_env ''/test/a'' ?S)"
  have r: "ring ?S = [''b'', ''c'']" by code_simp
  then have a1: "ring ?S \<noteq> []" by simp
  have a2: "ring ?S' = ring ?S" by (rule replicaFor_ring)
  have a3: "registry_inv ?S" by (rule registry_inv_run) (rule registry_inv_init)
  have a4: "registry_inv ?S'" using a3 by (rule registry_inv_grows) (rule grows_replicaFor)
  have g: "getNode (hash demo_env) (ring ?S) ''/test/a'' = Some ''c''" by code_simp
  from replicaFor_deterministic[OF a1 a2, of demo_env "''/test/a''"] a3 a4 g r
  show ?thesis by auto
qed

section \<open>\<^verbatim>\<open>buildRing\<close>\<close>

lemma calls_buildRing_fold:
  "calls (fold (\<lambda>key s. if key = sn then s else snd (connectTo e sn s)) ks st)
     = calls st @ replicate (length (filter (\<lambda>key. key \<noteq> sn) ks)) sn"
proof (induction ks arbitrary: st)
  case Nil
  show ?case by simp
next
  case (Cons key ks)
  show ?case
    by (simp add: Cons.IH connectTo_frame replicate_app_Cons_same)
qed

text \<open>
  C10. The calls of \<^verbatim>\<open>connectTo\<close> that \<^verbatim>\<open>buildRing\<close> makes are one per configured key
  other than the local name, and each passes the local name \<^verbatim>\<open>serverName\<close>: no call passes
  another identifier, and when the configuration has a key besides the local name there
  is at least one call.
\<close>

theorem buildRing_passes_serverName:
  "calls (buildRing e st) =
     calls st @ replicate (length (filter (\<lambda>key. key \<noteq> serverName e) (map fst (config_server e))))
                 (serverName e)
   \<and> set (drop (length (calls st)) (calls (buildRing e st))) \<subseteq> {serverName e}
   \<and> ((key, c) \<in> set (config_server e) \<and> key \<noteq> serverName e \<longrightarrow>
        set (drop (length (calls st)) (calls (buildRing e st))) = {serverName e})"
proof -
  let ?n = "length (filter (\<lambda>key. key \<noteq> serverName e) (map fst (config_server e)))"
  have a: "calls (buildRing e st) = calls st @ replicate ?n (serverName e)"
    unfolding buildRing_def by (rule calls_buildRing_fold)
  have b: "0 < ?n" if "(key, c) \<in> set (config_server e)" "key \<noteq> serverName e"
  proof -
    from that have "key \<in> set (filter (\<lambda>key. key \<noteq> serverName e) (map fst (config_server e)))"
      by force
    then show ?thesis by (simp only: length_pos_if_in_set)
  qed
  show ?thesis unfolding a using b by (auto simp: set_replicate_conv_if)
qed

theorem buildRing_passes_serverName_witness:
  "(''b'', \<lparr>host = ''localhost'', port = 5758, https = False\<rparr>) \<in> set (config_server demo_env)
   \<and> ''b'' \<noteq> serverName demo_env
   \<and> calls (buildRing demo_env init_state) = [''a'', ''a'']
   \<and> set (drop (length (calls init_state)) (calls (buildRing demo_env init_state)))
        = {serverName demo_env}"
proof -
  have h: "(''b'', \<lparr>host = ''localhost'', port = 5758, https = False\<rparr>) \<in> set (config_server demo_env)
     \<and> ''b'' \<noteq> serverName demo_env"
    by (simp add: demo_env_def)
  have c: "calls (buildRing demo_env init_state) = [''a'', ''a'']" by code_simp
  from buildRing_passes_serverName[of demo_env init_state "''b''"
      "\<lparr>host = ''localhost'', port = 5758, https = False\<rparr>"] h
  have "set (drop (length (calls init_state)) (calls (buildRing demo_env init_state)))
        = {serverName demo_env}"
    by blast
  with h c show ?thesis by blast
qed

section \<open>Two calls of \<^verbatim>\<open>connectTo\<close> in flight\<close>

text \<open>
  C9 as stated fails. \<^verbatim>\<open>connectTo\<close> consults the connections map only, and an entry
  appears there when a connection becomes ready. Two calls for \<open>b\<close> made before the first
  connection is ready create two clients; both become ready, and both are live.
\<close>

theorem connectTo_twice_counterexample:
  "live_connections ''b''
     (run demo_env [CallConnect ''b'', CallConnect ''b'', Ready 0, Ready 1] init_state) = [0, 1]
   \<and> connections
     (run demo_env [CallConnect ''b'', CallConnect ''b'', Ready 0, Ready 1] init_state) = [(''b'', 1)]"
  by code_simp

lemma update_update_same: "AList.update k v (AList.update k w al) = AList.update k v al"
  by (induction al) auto

lemma map_of_update_same: "map_of (AList.update k v al) k = Some v"
  by (simp add: update_conv')

lemma connections_distinct_step:
  assumes "distinct (map fst (connections st))"
  shows "distinct (map fst (connections (step e ev st)))"
proof (cases ev)
  case (CallConnect key)
  show ?thesis unfolding CallConnect step.simps using assms by (simp add: connectTo_frame)
next
  case CallBuildRing
  show ?thesis unfolding CallBuildRing step.simps
    using assms grows_buildRing[of st e] by (simp add: grows_def)
next
  case (Lookup root)
  show ?thesis unfolding Lookup step.simps
    using assms grows_replicaFor[of st e root] by (simp add: grows_def)
next
  case Tick
  show ?thesis unfolding Tick step.simps
    using assms grows_checkRemoved[of st e] by (simp add: grows_def)
next
  case (PopulateObj obj d)
  show ?thesis unfolding PopulateObj step.simps
    using assms grows_populate_obj[of st e obj d] by (simp add: grows_def)
next
  case RunSampler
  show ?thesis unfolding RunSampler step.simps
    using assms grows_testRing[of st] by (simp add: grows_def)
next
  case (ExternalWrite p v)
  show ?thesis unfolding ExternalWrite step.simps using assms by (simp add: store_set_def)
next
  case (Ready c)
  show ?thesis unfolding Ready step.simps using assms
    by (simp add: set_status_def on_ready_def console_log_def Let_def distinct_update)
next
  case (ReadyFailed c)
  show ?thesis unfolding ReadyFailed step.simps using assms
    by (simp add: set_status_def on_ready_failed_def console_log_def)
next
  case (Disconnect c)
  show ?thesis unfolding Disconnect step.simps using assms
    by (simp add: set_status_def on_disconnect_def console_log_def Let_def distinct_delete)
qed

lemma connections_distinct_run:
  "distinct (map fst (connections (run e evs init_state)))"
proof -
  have "distinct (map fst (connections st)) \<Longrightarrow> distinct (map fst (connections (run e evs st)))"
    for st
    unfolding run_def
    by (induction evs arbitrary: st) (simp_all add: connections_distinct_step)
  then show ?thesis by (simp add: init_state_def)
qed

text \<open>
  C9, amended. When the connections map has no entry for an identifier, two calls of
  \<^verbatim>\<open>connectTo\<close> for it create two connection objects; when both become ready, in either
  order, both are live connections for that identifier, and the connections map holds the
  handle of the one whose ready callback ran last: the second client's when the first
  became ready first, the first client's when the second became ready first. The map
  holds one handle for an identifier (\<open>connections_distinct_run\<close>).
\<close>

theorem connectTo_in_flight_not_gated:
  assumes "map_of (connections st) key = None"
  shows "fst (connectTo e key st) = length (clients st)
   \<and> fst (connectTo e key (snd (connectTo e key st))) = Suc (length (clients st))
   \<and> length (clients st) \<in> set (live_connections key
        (run e [CallConnect key, CallConnect key,
                Ready (length (clients st)), Ready (Suc (length (clients st)))] st))
   \<and> Suc (length (clients st)) \<in> set (live_connections key
        (run e [CallConnect key, CallConnect key,
                Ready (length (clients st)), Ready (Suc (length (clients st)))] st))
   \<and> map_of (connections
        (run e [CallConnect key, CallConnect key,
                Ready (length (clients st)), Ready (Suc (length (clients st)))] st)) key
       = Some (Suc (length (clients st)))
   \<and> length (clients st) \<in> set (live_connections key
        (run e [CallConnect key, CallConnect key,
                Ready (Suc (length (clients st))), Ready (length (clients st))] st))
   \<and> Suc (length (clients st)) \<in> set (live_connections key
        (run e [CallConnect key, CallConnect key,
                Ready (Suc (length (clients st))), Ready (length (clients st))] st))
   \<and> map_of (connections
        (run e [CallConnect key, CallConnect key,
                Ready (Suc (length (clients st))), Ready (length (clients st))] st)) key
       = Some (length (clients st))"
proof -
  let ?n = "length (clients st)"
  let ?cl = "\<lparr>c_dbname = dbname e, c_conf = map_of (config_server e) key, c_key = key,
              c_status = Pending\<rparr>"
  define s1 where "s1 = snd (connectTo e key st)"
  define s2 where "s2 = snd (connectTo e key s1)"
  define s3 where "s3 = step e (Ready ?n) s2"
  define s4 where "s4 = step e (Ready (Suc ?n)) s3"
  define t3 where "t3 = step e (Ready (Suc ?n)) s2"
  define t4 where "t4 = step e (Ready ?n) t3"
  have r: "run e [CallConnect key, CallConnect key, Ready ?n, Ready (Suc ?n)] st = s4"
    by (simp add: run_def s1_def s2_def s3_def s4_def)
  have r': "run e [CallConnect key, CallConnect key, Ready (Suc ?n), Ready ?n] st = t4"
    by (simp add: run_def s1_def s2_def t3_def t4_def)
  have f1: "fst (connectTo e key st) = ?n"
    using assms by (simp add: connectTo_def Let_def)
  have c1: "clients s1 = clients st @ [?cl]" and m1: "connections s1 = connections st"
    using assms by (simp_all add: s1_def connectTo_def Let_def)
  have f2: "fst (connectTo e key s1) = Suc ?n"
    using assms by (simp add: connectTo_def Let_def m1 c1)
  have c2: "clients s2 = clients st @ [?cl, ?cl]" and m2: "connections s2 = connections st"
    using assms by (simp_all add: s2_def connectTo_def Let_def m1 c1)
  have p3: "is_pending ?n s2"
    by (simp add: is_pending_def c2 nth_append)
  have c3: "clients s3 = clients st @ [?cl\<lparr>c_status := Connected\<rparr>, ?cl]"
    and m3: "connections s3 = AList.update key ?n (connections st)"
    using p3 by (simp_all add: s3_def set_status_def on_ready_def console_log_def Let_def c2 m2
        nth_append list_update_append)
  have p4: "is_pending (Suc ?n) s3"
    by (simp add: is_pending_def c3 nth_append)
  have c4: "clients s4 = clients st @ [?cl\<lparr>c_status := Connected\<rparr>, ?cl\<lparr>c_status := Connected\<rparr>]"
    and m4: "connections s4 = AList.update key (Suc ?n) (connections st)"
    using p4 by (simp_all add: s4_def set_status_def on_ready_def console_log_def Let_def c3 m3
        nth_append list_update_append update_update_same)
  have l1: "?n \<in> set (live_connections key s4)"
    by (simp add: live_connections_def c4 nth_append)
  have l2: "Suc ?n \<in> set (live_connections key s4)"
    by (simp add: live_connections_def c4 nth_append)
  have m: "map_of (connections s4) key = Some (Suc ?n)"
    by (simp add: m4 map_of_update_same)
  have q3: "is_pending (Suc ?n) s2"
    by (simp add: is_pending_def c2 nth_append)
  have d3: "clients t3 = clients st @ [?cl, ?cl\<lparr>c_status := Connected\<rparr>]"
    and k3: "connections t3 = AList.update key (Suc ?n) (connections st)"
    using q3 by (simp_all add: t3_def set_status_def on_ready_def console_log_def Let_def c2 m2
        nth_append list_update_append)
  have q4: "is_pending ?n t3"
    by (simp add: is_pending_def d3 nth_append)
  have d4: "clients t4 = clients st @ [?cl\<lparr>c_status := Connected\<rparr>, ?cl\<lparr>c_status := Connected\<rparr>]"
    and k4: "connections t4 = AList.update key ?n (connections st)"
    using q4 by (simp_all add: t4_def set_status_def on_ready_def console_log_def Let_def d3 k3
        nth_append list_update_append update_update_same)
  have l1': "?n \<in> set (live_connections key t4)"
    by (simp add: live_connections_def d4 nth_append)
  have l2': "Suc ?n \<in> set (live_connections key t4)"
    by (simp add: live_connections_def d4 nth_append)
  have m': "map_of (connections t4) key = Some ?n"
    by (simp add: k4 map_of_update_same)
  from f1 f2 l1 l2 m l1' l2' m' show ?thesis
    unfolding r r' s1_def[symmetric] by simp
qed

theorem connectTo_in_flight_not_gated_witness:
  "map_of (connections init_state) ''b'' = None
   \<and> fst (connectTo demo_env ''b'' init_state) = 0
   \<and> fst (connectTo demo_env ''b'' (snd (connectTo demo_env ''b'' init_state))) = 1
   \<and> 0 \<in> set (live_connections ''b''
        (run demo_env [CallConnect ''b'', CallConnect ''b'', Ready 0, Ready (Suc 0)] init_state))
   \<and> Suc 0 \<in> set (live_connections ''b''
        (run demo_env [CallConnect ''b'', CallConnect ''b'', Ready 0, Ready (Suc 0)] init_state))
   \<and> map_of (connections
        (run demo_env [CallConnect ''b'', CallConnect ''b'', Ready 0, Ready (Suc 0)] init_state)) ''b''
       = Some (Suc 0)
   \<and> 0 \<in> set (live_connections ''b''
        (run demo_env [CallConnect ''b'', CallConnect ''b'', Ready (Suc 0), Ready 0] init_state))
   \<and> Suc 0 \<in> set (live_connections ''b''
        (run demo_env [CallConnect ''b'', CallConnect ''b'', Ready (Suc 0), Ready 0] init_state))
   \<and> map_of (connections
        (run demo_env [CallConnect ''b'', CallConnect ''b'', Ready (Suc 0), Ready 0] init_state)) ''b''
       = Some 0"
proof -
  have h: "map_of (connections init_state) ''b'' = None" by (simp add: init_state_def)
  have n: "length (clients init_state) = 0" by (simp add: init_state_def)
  from connectTo_in_flight_not_gated[OF h, of demo_env] h show ?thesis
    unfolding n by simp
qed

section \<open>The reconciler tick\<close>

lemma props_Set_add: "props (Set_add k s) = props s"
  by (simp add: Set_add_def)

lemma props_Set_delete: "props (Set_delete k s) = props s"
  by (simp add: Set_delete_def)

lemma removed_logMsg: "removed (logMsg m extra st) = removed st"
  by (simp add: logMsg_def)

lemma removed_buildRing: "removed (buildRing e st) = removed st"
  unfolding buildRing_def by (rule fold_keeps) (simp add: connectTo_frame)

lemma props_checkRemoved: "props (removed (checkRemoved e st)) = props (removed st)"
proof -
  have a: "props (removed (fold (\<lambda>key s. snd (connectTo e key s)) keys s)) = props (removed s)"
    for keys s
    by (rule fold_keeps[where g = "\<lambda>s. props (removed s)"]) (simp add: connectTo_frame)
  have b: "props (removed (fold checkRemoved_then keys s)) = props (removed s)" for keys s
    by (rule fold_keeps[where g = "\<lambda>s. props (removed s)"])
       (simp add: checkRemoved_then_def props_Set_delete)
  show ?thesis by (simp add: checkRemoved_def checkRemoved_loop_def a b)
qed

lemma removed_replicaFor: "removed (snd (replicaFor e root st)) = removed st"
  by (simp add: replicaFor_def Let_def removed_logMsg connectTo_frame split: option.split)

lemma removed_testRing_loop: "removed (snd (testRing_loop ss st)) = removed st"
proof (induction ss arbitrary: st)
  case Nil
  show ?case by simp
next
  case (Cons s ss)
  show ?case
  proof (cases "prop_of (store_read (path s) st) ''msg''")
    case (Inl err)
    then show ?thesis by simp
  next
    case (Inr vmsg)
    then show ?thesis by (simp add: Let_def Cons.IH removed_logMsg)
  qed
qed

lemma removed_populate_obj: "removed (populate_obj e obj d st) = removed st"
  unfolding populate_obj_def Let_def
  by (simp add: removed_replicaFor removed_logMsg populate_write_def store_set_def Let_def
      split: option.split)

lemma props_step: "props (removed (step e ev st)) = props (removed st)"
proof (cases ev)
  case (PopulateObj obj d)
  show ?thesis unfolding PopulateObj step.simps by (simp add: removed_populate_obj)
next
  case RunSampler
  show ?thesis unfolding RunSampler by (simp add: testRing_def removed_testRing_loop)
qed (simp_all add: connectTo_frame removed_buildRing props_checkRemoved removed_replicaFor
      store_set_def set_status_def on_ready_def on_ready_failed_def on_disconnect_def
      console_log_def Let_def props_Set_add)

lemma props_run: "props (removed (run e evs st)) = props (removed st)"
  unfolding run_def
  by (induction evs arbitrary: st) (simp_all add: props_step)

lemma checkRemoved_does_nothing:
  "checkRemoved e (run e evs init_state) = run e evs init_state"
proof -
  have "props (removed (run e evs init_state)) = []"
    by (simp add: props_run init_state_def new_Set_def)
  then show ?thesis by (simp add: checkRemoved_def checkRemoved_loop_def for_in_def)
qed

text \<open>
  The loop body itself does what the tick is meant to do: run over the members of the
  set, as a \<^verbatim>\<open>for ... of\<close> loop would, it calls \<^verbatim>\<open>connectTo\<close> once for each member and
  then takes each out of the set.
\<close>

lemma calls_fold_connectTo:
  "calls (fold (\<lambda>key s. snd (connectTo e key s)) ks st) = calls st @ ks"
  by (induction ks arbitrary: st) (simp_all add: connectTo_frame)

lemma calls_fold_then: "calls (fold checkRemoved_then ks st) = calls st"
  by (rule fold_keeps) (simp add: checkRemoved_then_def)

lemma members_then:
  "members (removed (checkRemoved_then k st)) = filter (\<lambda>x. x \<noteq> k) (members (removed st))"
  by (simp add: checkRemoved_then_def Set_delete_def removeAll_filter_not_eq)
     (rule filter_cong, auto)

lemma members_fold_then:
  "members (removed (fold checkRemoved_then ks st)) = filter (\<lambda>k. k \<notin> set ks) (members (removed st))"
proof (induction ks arbitrary: st)
  case Nil
  show ?case by simp
next
  case (Cons k ks)
  have "members (removed (fold checkRemoved_then (k # ks) st))
      = filter (\<lambda>x. x \<notin> set ks) (members (removed (checkRemoved_then k st)))"
    by (simp add: Cons.IH)
  also have "\<dots> = filter (\<lambda>x. x \<notin> set (k # ks)) (members (removed st))"
    by (simp add: members_then conj_commute)
  finally show ?case .
qed

lemma removed_fold_connectTo:
  "removed (fold (\<lambda>key s. snd (connectTo e key s)) ks st) = removed st"
  by (rule fold_keeps) (simp add: connectTo_frame)

lemma for_of_loop_reconnects:
  "calls (checkRemoved_loop e (for_of (removed st)) st) = calls st @ members (removed st)
   \<and> members (removed (checkRemoved_loop e (for_of (removed st)) st)) = []"
  by (simp add: checkRemoved_loop_def calls_fold_then calls_fold_connectTo members_fold_then
      removed_fold_connectTo for_of_def)

text \<open>
  C1 at a concrete state. After \<open>b\<close> was connected and its connection dropped, \<open>b\<close> is in
  the removed set; \<^verbatim>\<open>checkRemoved\<close> then leaves the state as it is: the \<^verbatim>\<open>for ... in\<close> loop
  over the set visits no key, so \<^verbatim>\<open>connectTo\<close> is not called (the history of calls still
  holds the first call only) and \<open>b\<close> stays in the set. By \<open>checkRemoved_does_nothing\<close> this
  is so in every state the coordinator can reach.
\<close>

theorem checkRemoved_skips_removed_node:
  "members (removed (run demo_env [CallConnect ''b'', Ready 0, Disconnect 0] init_state)) = [''b'']
   \<and> calls (run demo_env [CallConnect ''b'', Ready 0, Disconnect 0] init_state) = [''b'']
   \<and> checkRemoved demo_env (run demo_env [CallConnect ''b'', Ready 0, Disconnect 0] init_state)
       = run demo_env [CallConnect ''b'', Ready 0, Disconnect 0] init_state"
proof -
  have a: "members (removed (run demo_env [CallConnect ''b'', Ready 0, Disconnect 0] init_state)) = [''b'']"
    by code_simp
  have b: "calls (run demo_env [CallConnect ''b'', Ready 0, Disconnect 0] init_state) = [''b'']"
    by code_simp
  have c: "for_in (removed (run demo_env [CallConnect ''b'', Ready 0, Disconnect 0] init_state)) = []"
    by code_simp
  from a b c show ?thesis by (simp add: checkRemoved_def checkRemoved_loop_def)
qed

section \<open>Startup\<close>

lemma startup_exits_iff:
  "(\<exists>code m. startup b = Exit code m)
     \<longleftrightarrow> DB_ADMIN_PASSWORD b = Some ''undefined'' \<or> argv_name b = None"
  by (auto simp: startup_def Let_def split: option.splits)

text \<open>
  C2 at concrete configurations. With the credential variable unset and a configured
  name, startup does not exit: the check compares the variable with the string
  \<^verbatim>\<open>'undefined'\<close>. With a name that is not a key of the node mapping it does not exit either:
  \<^verbatim>\<open>serverConfig\<close> is an object literal and is never \<^verbatim>\<open>undefined\<close>. With no name it exits
  with code 1.
\<close>

theorem startup_runs_without_credential:
  "startup \<lparr>DB_ADMIN_PASSWORD = None, argv_name = Some ''a'',
      toml_server = config_server demo_env\<rparr>
     = Started ''a'' \<lparr>logLevel = ''warn'',
         entry = Some \<lparr>host = ''localhost'', port = 5757, https = False\<rparr>\<rparr>
   \<and> startup \<lparr>DB_ADMIN_PASSWORD = Some ''secret'', argv_name = Some ''z'',
      toml_server = config_server demo_env\<rparr>
     = Started ''z'' \<lparr>logLevel = ''warn'', entry = None\<rparr>
   \<and> startup \<lparr>DB_ADMIN_PASSWORD = Some ''secret'', argv_name = None,
      toml_server = config_server demo_env\<rparr>
     = Exit 1 ''missing --name argument''"
  by (simp add: startup_def demo_env_def)

section \<open>The sampler\<close>

text \<open>
  C4 at a concrete run. The populator writes the record for \<open>g\<close> under the pushed path
  \<^verbatim>\<open>/test/g/k1\<close> and retains the sample with the path \<^verbatim>\<open>/test/g\<close>. The sampler reads
  \<^verbatim>\<open>/test/g\<close>, whose value is the object of the pushed children and has no property
  \<^verbatim>\<open>msg\<close>: it reports a mismatch although nothing changed the store, and the report has
  no \<^verbatim>\<open>vmsg\<close> field. When the record is changed to \<^verbatim>\<open>msg = y\<close> in between, the output
  is the same: the report does not mention the observed value.
\<close>

theorem sampler_reports_drift_without_mutation:
  "sampledValues (run demo_env [PopulateObj ''g'' \<lparr>pushed = ''k1'', now = 7, sampled = True\<rparr>] init_state)
     = [\<lparr>path = ''/test/g'', inner = \<lparr>msg = ''testing for ref g'', ts = 7\<rparr>\<rparr>]
   \<and> store_read ''/test/g/k1''
        (run demo_env [PopulateObj ''g'' \<lparr>pushed = ''k1'', now = 7, sampled = True\<rparr>] init_state)
     = JObj [(''msg'', JStr ''testing for ref g''), (''ts'', JDate 7)]
   \<and> store_read ''/test/g''
        (run demo_env [PopulateObj ''g'' \<lparr>pushed = ''k1'', now = 7, sampled = True\<rparr>] init_state)
     = JObj [(''k1'', JObj [(''msg'', JStr ''testing for ref g''), (''ts'', JDate 7)])]
   \<and> last (out (run demo_env
        [PopulateObj ''g'' \<lparr>pushed = ''k1'', now = 7, sampled = True\<rparr>, RunSampler] init_state))
     = Report [(''msg'', JStr (''mismatched sample value for '' @ [CHR 0x27] @ ''/test/g'')),
               (''path'', JStr ''/test/g''), (''imsg'', JStr ''testing for ref g'')]
   \<and> out (run demo_env
        [PopulateObj ''g'' \<lparr>pushed = ''k1'', now = 7, sampled = True\<rparr>,
         ExternalWrite ''/test/g/k1'' (JObj [(''msg'', JStr ''y''), (''ts'', JDate 7)]),
         RunSampler] init_state)
     = out (run demo_env
        [PopulateObj ''g'' \<lparr>pushed = ''k1'', now = 7, sampled = True\<rparr>, RunSampler] init_state)"
  by code_simp

section \<open>The second copy: startup, tick and router\<close>

lemma startup_alt_exits_iff:
  "(\<exists>code m. startup_alt b = Exit code m)
     \<longleftrightarrow> DB_ADMIN_PASSWORD b = Some ''undefined'' \<or> argv_name b = None
          \<or> (\<exists>name. argv_name b = Some name \<and> map_of (toml_server b) name = None)"
  by (auto simp: startup_alt_def Let_def split: option.splits)

lemma checkRemoved_alt_skips:
  assumes "props (removed_alt st) = []"
  shows "checkRemoved_alt e ready_ok st =
     st\<lparr>out_alt := out_alt st @ [ConsoleLog ''checkRemoved:begin'', ConsoleLog ''checkRemoved:end'']\<rparr>"
  using assms by (simp add: checkRemoved_alt_def console_alt_def for_in_def)

lemma replicaFor_alt_deterministic:
  "fst (replicaFor_alt e k (snd (replicaFor_alt e k st))) = fst (replicaFor_alt e k st)
   \<and> ring_alt (snd (replicaFor_alt e k st)) = ring_alt st"
proof (cases "map_of (clientCache st) k")
  case (Some cacheEntry)
  then show ?thesis by (simp add: replicaFor_alt_def)
next
  case None
  show ?thesis
  proof (cases "getNode (hash e) (ring_alt st) k")
    case n: None
    with None show ?thesis
      by (simp add: replicaFor_alt_def console_alt_def Let_def)
  next
    case (Some upstream)
    with None show ?thesis
      by (simp add: replicaFor_alt_def console_alt_def Let_def update_conv')
  qed
qed

end
